theory Spec2Isabelle
  imports Complex_Main
begin

section \<open>Decision-time detection in the perceptual decision making notebook\<close>

text \<open>
  The notebook \<^verbatim>\<open>mini-projects/04_decision_making.ipynb\<close> asks for a function
  \<^verbatim>\<open>get_decision_time(rate_monitor_A, rate_monitor_B, avg_window_width, rate_threshold)\<close>
  returning the tuple \<^verbatim>\<open>(decision_time_left, decision_time_right)\<close>, and gives the
  computation for one side:
  \<^verbatim>\<open>
  smoothed_rates_A = rate_monitor_A.smooth_rate(window="flat",
                                                width=avg_window_width) / b2.Hz
  idx_A = numpy.argmax(smoothed_rates_A > rate_threshold/b2.Hz)
  t_A = idx_A * b2.defaultclock.dt
  \<close>
  Rates are numbers in Hz, times are numbers in the unit of the clock step, and both are
  modelled as reals. A raised Python exception is the \<open>Inl\<close> branch of a sum.
\<close>

subsection \<open>Data model\<close>

datatype error = ValueError

type_synonym rate_series = "real list"

subsection \<open>numpy.argmax\<close>

text \<open>
  \<^verbatim>\<open>numpy.argmax\<close> of a one-dimensional array is the index of the first occurrence of
  the maximum; on an empty array it raises \<^verbatim>\<open>ValueError\<close>. The scan keeps the best
  value seen so far and its index, and replaces them only by a strictly greater value.
\<close>

fun argmax_from :: "'a::linorder \<Rightarrow> nat \<Rightarrow> nat \<Rightarrow> 'a list \<Rightarrow> nat" where
  "argmax_from best best_idx i [] = best_idx"
| "argmax_from best best_idx i (x # xs) =
     (if best < x then argmax_from x i (Suc i) xs
      else argmax_from best best_idx (Suc i) xs)"

definition argmax :: "'a::linorder list \<Rightarrow> error + nat" where
  "argmax xs = (case xs of [] \<Rightarrow> Inl ValueError | x # xs' \<Rightarrow> Inr (argmax_from x 0 1 xs'))"

subsection \<open>The decision time of one side\<close>

text \<open>
  \<open>smooth\<close> stands for \<^verbatim>\<open>smooth_rate(window="flat", width=...)\<close> of the rate monitor,
  which the notebook calls and does not define; \<open>dt\<close> is \<^verbatim>\<open>b2.defaultclock.dt\<close>.
\<close>

definition above_threshold :: "real list \<Rightarrow> real \<Rightarrow> bool list" where
  "above_threshold smoothed_rates rate_threshold = map (\<lambda>r. r > rate_threshold) smoothed_rates"

definition idx_of :: "real list \<Rightarrow> real \<Rightarrow> error + nat" where
  "idx_of smoothed_rates rate_threshold = argmax (above_threshold smoothed_rates rate_threshold)"

definition t_of :: "('w \<Rightarrow> rate_series \<Rightarrow> error + real list) \<Rightarrow> rate_series \<Rightarrow> 'w \<Rightarrow> real \<Rightarrow> real
    \<Rightarrow> error + real" where
  "t_of smooth rate_monitor avg_window_width rate_threshold dt =
     (case smooth avg_window_width rate_monitor of
        Inl e \<Rightarrow> Inl e
      | Inr smoothed_rates \<Rightarrow>
          (case idx_of smoothed_rates rate_threshold of
             Inl e \<Rightarrow> Inl e
           | Inr idx \<Rightarrow> Inr (real idx * dt)))"

subsection \<open>The detector\<close>

text \<open>
  The notebook fixes the arguments of \<^verbatim>\<open>get_decision_time\<close> and the tuple it returns,
  and writes the fragment for monitor A. The detector runs the fragment on monitor A
  (left) and on monitor B (right) and returns the two times as a tuple; an exception
  raised on either side leaves the call.
\<close>

definition get_decision_time ::
    "('w \<Rightarrow> rate_series \<Rightarrow> error + real list) \<Rightarrow> rate_series \<Rightarrow> rate_series \<Rightarrow> 'w \<Rightarrow> real \<Rightarrow> real
      \<Rightarrow> error + real \<times> real" where
  "get_decision_time smooth rate_monitor_A rate_monitor_B avg_window_width rate_threshold dt =
     (case t_of smooth rate_monitor_A avg_window_width rate_threshold dt of
        Inl e \<Rightarrow> Inl e
      | Inr t_A \<Rightarrow>
          (case t_of smooth rate_monitor_B avg_window_width rate_threshold dt of
             Inl e \<Rightarrow> Inl e
           | Inr t_B \<Rightarrow> Inr (t_A, t_B)))"

subsection \<open>Flat-window smoothing\<close>

text \<open>
  \<^verbatim>\<open>smooth_rate\<close> is a method of the rate monitor of the simulation toolkit; the
  notebook only calls it. The specification describes it as a causal moving average with
  a flat window of the given width. In the definitions below the width is a number of
  samples; the caller's width is an integer, so that a non-positive width can be passed.
\<close>

text \<open>
  Modelled from the spec: the sample \<open>j\<close> steps before sample \<open>i\<close> of the series, as
  the causal window of \<^verbatim>\<open>smooth_rate\<close> sees it; before the start of the series it
  is zero.
\<close>

definition padded :: "real list \<Rightarrow> nat \<Rightarrow> nat \<Rightarrow> real" where
  "padded xs i j = (if j \<le> i then xs ! (i - j) else 0)"

text \<open>
  Modelled from the spec: the sum over the flat window of \<^verbatim>\<open>smooth_rate\<close>, the \<open>w\<close>
  samples that end at sample \<open>i\<close>.
\<close>

definition window_sum :: "nat \<Rightarrow> real list \<Rightarrow> nat \<Rightarrow> real" where
  "window_sum w xs i = (\<Sum>j\<leftarrow>[0..<w]. padded xs i j)"

text \<open>
  Modelled from the spec: the moving average that \<^verbatim>\<open>smooth_rate\<close> returns, one
  value per sample of the series, each the window sum divided by the width.
\<close>

definition smoothed :: "nat \<Rightarrow> real list \<Rightarrow> real list" where
  "smoothed w xs = map (\<lambda>i. window_sum w xs i / real w) [0..<length xs]"

text \<open>
  Modelled from the spec: \<^verbatim>\<open>smooth_rate(window="flat", width=w)\<close>, which is missing
  from the repository. A non-positive window width is an invalid argument; a positive
  width gives the moving average over that many samples.
\<close>

definition smooth_rate :: "int \<Rightarrow> rate_series \<Rightarrow> error + real list" where
  "smooth_rate w xs = (if w \<le> 0 then Inl ValueError else Inr (smoothed (nat w) xs))"

subsection \<open>Predicates on a smoothed series\<close>

definition crosses :: "real list \<Rightarrow> real \<Rightarrow> bool" where
  "crosses ys rate_threshold = (\<exists>y\<in>set ys. y > rate_threshold)"

definition first_exceeds :: "real list \<Rightarrow> real \<Rightarrow> nat \<Rightarrow> bool" where
  "first_exceeds ys rate_threshold k =
     (k < length ys \<and> ys ! k > rate_threshold \<and> (\<forall>y\<in>set (take k ys). \<not> y > rate_threshold))"

definition stays_below :: "real list \<Rightarrow> real \<Rightarrow> bool" where
  "stays_below ys rate_threshold = (\<forall>y\<in>set ys. y < rate_threshold)"

text \<open>
  The flag a test raises on a returned pair, in the words of the specification: both
  times are non-zero. The notebook calls such a return value an error of the caller.
\<close>

definition ambiguous :: "real \<times> real \<Rightarrow> bool" where
  "ambiguous result = (fst result \<noteq> 0 \<and> snd result \<noteq> 0)"

definition smoothing_fails :: "('w \<Rightarrow> rate_series \<Rightarrow> error + real list) \<Rightarrow> 'w \<Rightarrow> rate_series \<Rightarrow> bool" where
  "smoothing_fails smooth w rate_monitor =
     (case smooth w rate_monitor of Inl e \<Rightarrow> True | Inr ys \<Rightarrow> ys = [])"

section \<open>Properties of argmax on boolean arrays\<close>

lemma argmax_from_no_better:
  "\<forall>x\<in>set xs. \<not> best < x \<Longrightarrow> argmax_from best bi i xs = bi"
  by (induction xs arbitrary: i) auto

lemma argmax_from_first_true:
  "k < length bs \<Longrightarrow> bs ! k \<Longrightarrow> \<forall>b\<in>set (take k bs). \<not> b \<Longrightarrow>
     argmax_from False bi i bs = i + k"
proof (induction bs arbitrary: i k)
  case Nil
  then show ?case by simp
next
  case (Cons b bs)
  show ?case
  proof (cases k)
    case 0
    with Cons.prems have b by simp
    then show ?thesis using 0 by (simp add: argmax_from_no_better)
  next
    case (Suc k')
    with Cons.prems have nb: "\<not> b"
      and k': "k' < length bs" "bs ! k'" "\<forall>b\<in>set (take k' bs). \<not> b"
      by auto
    from Cons.IH [OF k'] nb show ?thesis using Suc by simp
  qed
qed

lemma argmax_first_true:
  assumes "k < length bs" "bs ! k" "\<forall>b\<in>set (take k bs). \<not> b"
  shows "argmax bs = Inr k"
proof (cases bs)
  case Nil
  with assms show ?thesis by simp
next
  case (Cons b bs')
  show ?thesis
  proof (cases k)
    case 0
    with assms Cons have b by simp
    then show ?thesis using 0 Cons by (simp add: argmax_def argmax_from_no_better)
  next
    case (Suc k')
    with assms Cons have nb: "\<not> b"
      and k': "k' < length bs'" "bs' ! k'" "\<forall>b\<in>set (take k' bs'). \<not> b"
      by auto
    from argmax_from_first_true [OF k', of 0 1] nb show ?thesis using Suc Cons
      by (simp add: argmax_def)
  qed
qed

lemma argmax_all_False:
  "bs \<noteq> [] \<Longrightarrow> \<forall>b\<in>set bs. \<not> b \<Longrightarrow> argmax bs = Inr 0"
  by (cases bs) (auto simp: argmax_def argmax_from_no_better)

section \<open>Properties of the per-side computation\<close>

lemma idx_of_Nil: "idx_of [] thr = Inl ValueError"
  by (simp add: idx_of_def above_threshold_def argmax_def)

lemma idx_of_first_exceeds:
  assumes "first_exceeds ys thr k"
  shows "idx_of ys thr = Inr k"
proof -
  let ?bs = "above_threshold ys thr"
  from assms have "k < length ?bs" "?bs ! k" "\<forall>b\<in>set (take k ?bs). \<not> b"
    by (auto simp: first_exceeds_def above_threshold_def take_map)
  then show ?thesis unfolding idx_of_def by (rule argmax_first_true)
qed

lemma idx_of_no_cross:
  "ys \<noteq> [] \<Longrightarrow> \<not> crosses ys thr \<Longrightarrow> idx_of ys thr = Inr 0"
  unfolding idx_of_def
  by (rule argmax_all_False) (auto simp: above_threshold_def crosses_def)

lemma first_exceeds_before:
  "k < length ys \<Longrightarrow> ys ! k > thr \<Longrightarrow> \<exists>k1\<le>k. first_exceeds ys thr k1"
proof (induction ys arbitrary: k)
  case Nil
  then show ?case by simp
next
  case (Cons y ys)
  show ?case
  proof (cases "y > thr")
    case True
    then have "first_exceeds (y # ys) thr 0" by (simp add: first_exceeds_def)
    then show ?thesis by blast
  next
    case False
    with Cons.prems obtain k' where k: "k = Suc k'" by (cases k) auto
    with Cons.prems have "k' < length ys" "ys ! k' > thr" by auto
    from Cons.IH [OF this] obtain k1 where "k1 \<le> k'" "first_exceeds ys thr k1" by blast
    with False k have "Suc k1 \<le> k" "first_exceeds (y # ys) thr (Suc k1)"
      by (auto simp: first_exceeds_def)
    then show ?thesis by blast
  qed
qed

lemma crosses_first_exceeds:
  "crosses ys thr \<Longrightarrow> \<exists>k. first_exceeds ys thr k"
proof -
  assume "crosses ys thr"
  then obtain k where "k < length ys" "ys ! k > thr"
    by (auto simp: crosses_def in_set_conv_nth)
  from first_exceeds_before [OF this] show ?thesis by blast
qed

lemma first_exceeds_crosses:
  "first_exceeds ys thr k \<Longrightarrow> crosses ys thr"
  by (auto simp: first_exceeds_def crosses_def)

lemma idx_of_total:
  "ys \<noteq> [] \<Longrightarrow> \<exists>i. idx_of ys thr = Inr i"
  using idx_of_no_cross [of ys thr] crosses_first_exceeds [of ys thr] idx_of_first_exceeds [of ys thr]
  by blast

lemma idx_of_pos_iff:
  assumes "idx_of ys thr = Inr i"
  shows "0 < i \<longleftrightarrow> (\<exists>k. first_exceeds ys thr k \<and> 0 < k)"
proof (cases "crosses ys thr")
  case True
  from crosses_first_exceeds [OF True] obtain k where k: "first_exceeds ys thr k" by blast
  from idx_of_first_exceeds [OF k] assms have "i = k" by simp
  with k assms show ?thesis by (auto dest: idx_of_first_exceeds)
next
  case False
  then have none: "\<not> first_exceeds ys thr k" for k by (auto dest: first_exceeds_crosses)
  from assms have "ys \<noteq> []" by (auto simp: idx_of_Nil)
  from idx_of_no_cross [OF this False] assms have "i = 0" by simp
  with none show ?thesis by simp
qed

lemma stays_below_no_cross: "stays_below ys thr \<Longrightarrow> \<not> crosses ys thr"
  by (auto simp: stays_below_def crosses_def)

lemma t_of_smoothed:
  "smooth w m = Inr ys \<Longrightarrow>
     t_of smooth m w thr dt = (case idx_of ys thr of Inl e \<Rightarrow> Inl e | Inr i \<Rightarrow> Inr (real i * dt))"
  by (simp add: t_of_def)

lemma t_of_first_exceeds:
  "smooth w m = Inr ys \<Longrightarrow> first_exceeds ys thr k \<Longrightarrow> t_of smooth m w thr dt = Inr (real k * dt)"
  by (simp add: t_of_smoothed idx_of_first_exceeds)

lemma t_of_no_cross:
  "smooth w m = Inr ys \<Longrightarrow> ys \<noteq> [] \<Longrightarrow> \<not> crosses ys thr \<Longrightarrow> t_of smooth m w thr dt = Inr 0"
  by (simp add: t_of_smoothed idx_of_no_cross)

lemma t_of_total:
  assumes "smooth w m = Inr ys" "ys \<noteq> []"
  shows "\<exists>i. idx_of ys thr = Inr i \<and> t_of smooth m w thr dt = Inr (real i * dt)"
proof -
  from idx_of_total [OF assms(2)] obtain i where "idx_of ys thr = Inr i" by blast
  then show ?thesis using assms(1) by (auto simp: t_of_smoothed)
qed

lemma t_of_fails:
  "(\<exists>e. t_of smooth m w thr dt = Inl e) \<longleftrightarrow> smoothing_fails smooth w m"
proof (cases "smooth w m")
  case (Inl e)
  then show ?thesis by (simp add: t_of_def smoothing_fails_def)
next
  case (Inr ys)
  show ?thesis
  proof (cases "ys = []")
    case True
    with Inr show ?thesis by (simp add: t_of_smoothed idx_of_Nil smoothing_fails_def)
  next
    case False
    from t_of_total [of smooth w m ys thr dt] Inr False show ?thesis
      by (auto simp: smoothing_fails_def)
  qed
qed

lemma get_decision_time_sides:
  "t_of smooth A w thr dt = Inr tA \<Longrightarrow> t_of smooth B w thr dt = Inr tB \<Longrightarrow>
     get_decision_time smooth A B w thr dt = Inr (tA, tB)"
  by (simp add: get_decision_time_def)

section \<open>Properties of the flat-window smoothing\<close>

lemma window_sum_conv_sum: "window_sum w xs i = (\<Sum>j = 0..<w. padded xs i j)"
  by (simp add: window_sum_def interv_sum_list_conv_sum_set_nat)

lemma window_sum_Suc: "window_sum (Suc w) xs i = window_sum w xs i + padded xs i w"
  by (simp add: window_sum_conv_sum)

lemma length_smoothed [simp]: "length (smoothed w xs) = length xs"
  by (simp add: smoothed_def)

lemma nth_smoothed:
  "i < length xs \<Longrightarrow> smoothed w xs ! i = window_sum w xs i / real w"
  by (simp add: smoothed_def)

lemma smoothed_eq_Nil [simp]: "smoothed w xs = [] \<longleftrightarrow> xs = []"
  by (simp add: smoothed_def)

lemma window_sum_le_bound:
  assumes "\<forall>x\<in>set xs. x \<le> c" "0 \<le> c" "i < length xs"
  shows "window_sum w xs i \<le> real w * c"
proof -
  have "(\<Sum>j = 0..<w. padded xs i j) \<le> real (card {0..<w}) * c"
  proof (rule sum_bounded_above)
    fix j assume "j \<in> {0..<w}"
    show "padded xs i j \<le> c"
      using assms by (auto simp: padded_def intro: less_imp_diff_less)
  qed
  then show ?thesis by (simp add: window_sum_conv_sum)
qed

lemma smoothed_le_bound:
  assumes "\<forall>x\<in>set xs. x \<le> c" "0 \<le> c" "0 < w"
  shows "\<forall>y\<in>set (smoothed w xs). y \<le> c"
proof -
  have "smoothed w xs ! i \<le> c" if "i < length xs" for i
  proof -
    from window_sum_le_bound [OF assms(1,2) that] have "window_sum w xs i \<le> real w * c" .
    with assms(3) have "window_sum w xs i / real w \<le> c"
      by (simp add: pos_divide_le_eq mult.commute)
    with that show ?thesis by (simp add: nth_smoothed)
  qed
  then show ?thesis by (auto simp: in_set_conv_nth)
qed

lemma window_sum_Suc_0: "window_sum (Suc 0) xs i = xs ! i"
  by (simp add: window_sum_def padded_def)

lemma smoothed_Suc_0: "smoothed (Suc 0) xs = xs"
proof -
  have "map (\<lambda>i. xs ! i) [0..<length xs] = xs" by (rule map_nth)
  then show ?thesis by (simp add: smoothed_def window_sum_Suc_0)
qed

lemma smooth_rate_one: "smooth_rate 1 xs = Inr xs"
  by (simp add: smooth_rate_def smoothed_Suc_0)

lemma smooth_rate_int: "0 < n \<Longrightarrow> smooth_rate (int n) xs = Inr (smoothed n xs)"
  by (simp add: smooth_rate_def)

lemma smooth_rate_pos: "0 < w \<Longrightarrow> smooth_rate w xs = Inr (smoothed (nat w) xs)"
  by (simp add: smooth_rate_def)

lemma smooth_rate_nonpos: "w \<le> 0 \<Longrightarrow> smooth_rate w xs = Inl ValueError"
  by (simp add: smooth_rate_def)

lemma first_exceeds_step:
  "first_exceeds (replicate n 0 @ replicate m 60) 45 n" if "0 < m"
  using that by (simp add: first_exceeds_def nth_append)

lemma padded_antimono:
  assumes "sorted xs" "\<forall>x\<in>set xs. 0 \<le> x" "i < length xs" "j \<le> j'"
  shows "padded xs i j' \<le> padded xs i j"
proof (cases "j' \<le> i")
  case True
  with assms have "xs ! (i - j') \<le> xs ! (i - j)"
    by (intro sorted_nth_mono) auto
  with True assms show ?thesis by (simp add: padded_def)
next
  case False
  have "0 \<le> padded xs i j" using assms by (auto simp: padded_def)
  with False show ?thesis by (simp add: padded_def)
qed


lemma window_sum_ge_last:
  assumes "sorted xs" "\<forall>x\<in>set xs. 0 \<le> x" "i < length xs"
  shows "real w * padded xs i w \<le> window_sum w xs i"
proof -
  have "real (card {0..<w}) * padded xs i w \<le> (\<Sum>j = 0..<w. padded xs i j)"
  proof (rule sum_bounded_below)
    fix j assume "j \<in> {0..<w}"
    then have "j \<le> w" by simp
    with assms show "padded xs i w \<le> padded xs i j" by (rule padded_antimono)
  qed
  then show ?thesis by (simp add: window_sum_conv_sum)
qed

lemma average_step:
  assumes "sorted xs" "\<forall>x\<in>set xs. 0 \<le> x" "i < length xs" "0 < w"
  shows "window_sum (Suc w) xs i / real (Suc w) \<le> window_sum w xs i / real w"
proof -
  from window_sum_ge_last [OF assms(1-3)]
  have "real w * padded xs i w \<le> window_sum w xs i" .
  then have "real w * (window_sum w xs i + padded xs i w) \<le> real (Suc w) * window_sum w xs i"
    by (simp add: algebra_simps)
  with assms(4) show ?thesis
    by (simp add: window_sum_Suc field_simps)
qed

lemma average_antimono:
  assumes "sorted xs" "\<forall>x\<in>set xs. 0 \<le> x" "i < length xs" "0 < w1" "w1 \<le> w2"
  shows "window_sum w2 xs i / real w2 \<le> window_sum w1 xs i / real w1"
  using assms(5)
proof (induction w2 rule: dec_induct)
  case base
  show ?case by simp
next
  case (step n)
  with assms(4) have "0 < n" by simp
  from average_step [OF assms(1-3) this] step.IH show ?case by simp
qed

lemma smoothed_antimono:
  assumes "sorted xs" "\<forall>x\<in>set xs. 0 \<le> x" "i < length xs" "0 < w1" "w1 \<le> w2"
  shows "smoothed w2 xs ! i \<le> smoothed w1 xs ! i"
  using average_antimono [OF assms] assms(3) by (simp add: nth_smoothed)

lemma first_exceeds_wider:
  assumes "sorted xs" "\<forall>x\<in>set xs. 0 \<le> x" "0 < w1" "w1 \<le> w2"
    and "first_exceeds (smoothed w2 xs) thr k2"
  shows "\<exists>k1\<le>k2. first_exceeds (smoothed w1 xs) thr k1"
proof -
  from assms(5) have k2: "k2 < length xs" "thr < smoothed w2 xs ! k2"
    by (simp_all add: first_exceeds_def)
  from smoothed_antimono [OF assms(1,2) k2(1) assms(3,4)] k2(2)
  have "thr < smoothed w1 xs ! k2" by simp
  with k2(1) show ?thesis by (intro first_exceeds_before) simp_all
qed

lemma get_decision_time_no_cross:
  assumes "smooth w A = Inr sA" "smooth w B = Inr sB" "sA \<noteq> []" "sB \<noteq> []"
    and "\<not> crosses sA thr" "\<not> crosses sB thr"
  shows "get_decision_time smooth A B w thr dt = Inr (0, 0)"
  using assms by (simp add: get_decision_time_def t_of_no_cross [of smooth w _ _ thr dt])

section \<open>The claims\<close>

text \<open>
  C1: when smoothing succeeds on both monitors and gives non-empty series, the detector
  returns a pair of times, and for each side whose smoothed series first exceeds the
  threshold at sample index \<open>k\<close> the time of that side is \<open>k * dt\<close>.
\<close>

theorem get_decision_time_first_crossing:
  assumes "smooth w A = Inr sA" "smooth w B = Inr sB" "sA \<noteq> []" "sB \<noteq> []"
  shows "\<exists>tA tB. get_decision_time smooth A B w thr dt = Inr (tA, tB) \<and>
           (\<forall>k. first_exceeds sA thr k \<longrightarrow> tA = real k * dt) \<and>
           (\<forall>k. first_exceeds sB thr k \<longrightarrow> tB = real k * dt)"
proof -
  from t_of_total [of smooth w A sA thr dt] assms obtain i
    where i: "idx_of sA thr = Inr i" "t_of smooth A w thr dt = Inr (real i * dt)" by blast
  from t_of_total [of smooth w B sB thr dt] assms obtain j
    where j: "idx_of sB thr = Inr j" "t_of smooth B w thr dt = Inr (real j * dt)" by blast
  have "get_decision_time smooth A B w thr dt = Inr (real i * dt, real j * dt)"
    using i(2) j(2) by (rule get_decision_time_sides)
  moreover have "\<forall>k. first_exceeds sA thr k \<longrightarrow> real i * dt = real k * dt"
    using i(1) by (auto dest: idx_of_first_exceeds)
  moreover have "\<forall>k. first_exceeds sB thr k \<longrightarrow> real j * dt = real k * dt"
    using j(1) by (auto dest: idx_of_first_exceeds)
  ultimately show ?thesis by blast
qed

theorem get_decision_time_first_crossing_witness:
  "smooth_rate 2 [0, 0, 60, 60] = Inr [0, 0, 30, 60] \<and>
   smooth_rate 2 [0, 0, 0, 0] = Inr [0, 0, 0, 0] \<and>
   first_exceeds [0, 0, 30, 60] 45 3 \<and>
   (\<exists>tB. get_decision_time smooth_rate [0, 0, 60, 60] [0, 0, 0, 0] 2 45 (1 / 10) = Inr (3 / 10, tB))"
proof -
  have a: "smooth_rate 2 [0, 0, 60, 60] = Inr [0, 0, 30, 60]" by code_simp
  have b: "smooth_rate 2 [0, 0, 0, 0] = Inr [0, 0, 0, 0]" by code_simp
  have c: "first_exceeds [0, 0, 30, 60] 45 3" by code_simp
  from get_decision_time_first_crossing
         [of smooth_rate 2 "[0, 0, 60, 60]" "[0, 0, 30, 60]" "[0, 0, 0, 0]" "[0, 0, 0, 0]" 45 "1 / 10"]
       a b c
  have "\<exists>tB. get_decision_time smooth_rate [0, 0, 60, 60] [0, 0, 0, 0] 2 45 (1 / 10) = Inr (3 / 10, tB)"
    by fastforce
  with a b c show ?thesis by blast
qed

text \<open>
  C3: when smoothing succeeds on both monitors and gives non-empty series, the detector
  returns a pair of times in which each side whose smoothed series stays strictly below
  the threshold has time zero; in particular two non-empty series constant at 10 Hz,
  smoothed with a window of at least one sample and compared with 45 Hz, give \<open>(0, 0)\<close>.
  On an empty series the call raises \<^verbatim>\<open>ValueError\<close> instead of returning zero.
\<close>

theorem get_decision_time_below_threshold:
  "(smooth w A = Inr sA \<and> smooth w B = Inr sB \<and> sA \<noteq> [] \<and> sB \<noteq> [] \<longrightarrow>
      (\<exists>tA tB. get_decision_time smooth A B w thr dt = Inr (tA, tB) \<and>
         (stays_below sA thr \<longrightarrow> tA = 0) \<and> (stays_below sB thr \<longrightarrow> tB = 0))) \<and>
   (0 < n \<and> 0 < w' \<longrightarrow>
      get_decision_time smooth_rate (replicate n 10) (replicate n 10) w' 45 dt' = Inr (0, 0))"
proof (intro conjI impI)
  assume h: "smooth w A = Inr sA \<and> smooth w B = Inr sB \<and> sA \<noteq> [] \<and> sB \<noteq> []"
  from t_of_total [of smooth w A sA thr dt] h obtain i
    where i: "idx_of sA thr = Inr i" "t_of smooth A w thr dt = Inr (real i * dt)" by blast
  from t_of_total [of smooth w B sB thr dt] h obtain j
    where j: "idx_of sB thr = Inr j" "t_of smooth B w thr dt = Inr (real j * dt)" by blast
  have "get_decision_time smooth A B w thr dt = Inr (real i * dt, real j * dt)"
    using i(2) j(2) by (rule get_decision_time_sides)
  moreover have "stays_below sA thr \<longrightarrow> real i * dt = 0"
    using i(1) h idx_of_no_cross [of sA thr] stays_below_no_cross [of sA thr] by auto
  moreover have "stays_below sB thr \<longrightarrow> real j * dt = 0"
    using j(1) h idx_of_no_cross [of sB thr] stays_below_no_cross [of sB thr] by auto
  ultimately show "\<exists>tA tB. get_decision_time smooth A B w thr dt = Inr (tA, tB) \<and>
         (stays_below sA thr \<longrightarrow> tA = 0) \<and> (stays_below sB thr \<longrightarrow> tB = 0)"
    by blast
next
  assume h: "0 < n \<and> 0 < w'"
  let ?xs = "replicate n (10::real)"
  have s: "smooth_rate w' ?xs = Inr (smoothed (nat w') ?xs)" using h by (simp add: smooth_rate_pos)
  have ne: "smoothed (nat w') ?xs \<noteq> []" using h by simp
  have "\<forall>y\<in>set (smoothed (nat w') ?xs). y \<le> 10"
    using h by (intro smoothed_le_bound) auto
  then have nc: "\<not> crosses (smoothed (nat w') ?xs) 45" by (fastforce simp: crosses_def)
  from get_decision_time_no_cross [of smooth_rate w' ?xs _ ?xs, OF s s ne ne nc nc]
  show "get_decision_time smooth_rate ?xs ?xs w' 45 dt' = Inr (0, 0)" .
qed

theorem get_decision_time_below_threshold_witness:
  "smooth_rate 2 [10, 10, 10] = Inr [5, 10, 10] \<and> stays_below [5, 10, 10] 45 \<and>
   get_decision_time smooth_rate [10, 10, 10] [10, 10, 10] 2 45 (1 / 10) = Inr (0, 0)"
proof -
  have a: "smooth_rate 2 [10, 10, 10] = Inr [5, 10, 10]" by code_simp
  have b: "stays_below [5, 10, 10] 45" by code_simp
  have c: "replicate 3 (10::real) = [10, 10, 10]" by (simp add: numeral_3_eq_3)
  from get_decision_time_below_threshold
         [of smooth_rate 2 "[10, 10, 10]" "[5, 10, 10]" "[10, 10, 10]" "[5, 10, 10]" 45 "1 / 10" 3 2 "1 / 10"]
       a b c
  show ?thesis by auto
qed

text \<open>
  Both series empty: every smoothed value (there is none) is below 45 Hz, and the call
  raises \<^verbatim>\<open>ValueError\<close> from \<^verbatim>\<open>numpy.argmax\<close> instead of returning zero.
\<close>

theorem get_decision_time_below_threshold_counterexample:
  "stays_below [] 45 \<and> smooth_rate 1 [] = Inr [] \<and>
   get_decision_time smooth_rate [] [] 1 45 1 = Inl ValueError"
  by code_simp

text \<open>
  C4: when smoothing succeeds on both monitors and gives non-empty series, and the clock
  step is not zero, the detector returns a pair of times and no error. A side's time is
  non-zero exactly when its smoothed series first exceeds the threshold after sample 0.
  So the pair is ambiguous, with both times non-zero, exactly when both smoothed series
  first exceed the threshold after sample 0, and it has at most one non-zero time in every
  other case, in particular when at most one smoothed series exceeds the threshold. The
  detector marks the ambiguous pair in no way: the caller sees it in the two times.
\<close>

theorem get_decision_time_ambiguous_iff:
  assumes "smooth w A = Inr sA" "smooth w B = Inr sB" "sA \<noteq> []" "sB \<noteq> []" "dt \<noteq> 0"
  shows "\<exists>tA tB. get_decision_time smooth A B w thr dt = Inr (tA, tB) \<and>
           (tA \<noteq> 0) = (\<exists>k. first_exceeds sA thr k \<and> 0 < k) \<and>
           (tB \<noteq> 0) = (\<exists>k. first_exceeds sB thr k \<and> 0 < k) \<and>
           ambiguous (tA, tB) =
             ((\<exists>k. first_exceeds sA thr k \<and> 0 < k) \<and> (\<exists>k. first_exceeds sB thr k \<and> 0 < k)) \<and>
           (\<not> (crosses sA thr \<and> crosses sB thr) \<longrightarrow> \<not> ambiguous (tA, tB))"
proof -
  from t_of_total [of smooth w A sA thr dt] assms obtain i
    where i: "idx_of sA thr = Inr i" "t_of smooth A w thr dt = Inr (real i * dt)" by blast
  from t_of_total [of smooth w B sB thr dt] assms obtain j
    where j: "idx_of sB thr = Inr j" "t_of smooth B w thr dt = Inr (real j * dt)" by blast
  let ?tA = "real i * dt" and ?tB = "real j * dt"
  have res: "get_decision_time smooth A B w thr dt = Inr (?tA, ?tB)"
    using i(2) j(2) by (rule get_decision_time_sides)
  have a: "(?tA \<noteq> 0) = (\<exists>k. first_exceeds sA thr k \<and> 0 < k)"
    using idx_of_pos_iff [OF i(1)] assms(5) by simp
  have b: "(?tB \<noteq> 0) = (\<exists>k. first_exceeds sB thr k \<and> 0 < k)"
    using idx_of_pos_iff [OF j(1)] assms(5) by simp
  have c: "ambiguous (?tA, ?tB) =
      ((\<exists>k. first_exceeds sA thr k \<and> 0 < k) \<and> (\<exists>k. first_exceeds sB thr k \<and> 0 < k))"
    using a b by (simp add: ambiguous_def)
  have d: "\<not> (crosses sA thr \<and> crosses sB thr) \<longrightarrow> \<not> ambiguous (?tA, ?tB)"
    unfolding c by (auto dest: first_exceeds_crosses)
  from res a b c d show ?thesis by blast
qed

theorem get_decision_time_ambiguous_iff_witness:
  "smooth_rate 2 [0, 0, 60, 60] = Inr [0, 0, 30, 60] \<and>
   smooth_rate 2 [0, 0, 0, 0] = Inr [0, 0, 0, 0] \<and>
   \<not> (crosses [0, 0, 30, 60] 45 \<and> crosses [0, 0, 0, 0] 45) \<and>
   get_decision_time smooth_rate [0, 0, 60, 60] [0, 0, 0, 0] 2 45 (1 / 10) = Inr (3 / 10, 0) \<and>
   \<not> ambiguous (3 / 10, 0) \<and>
   smooth_rate 1 [0, 60, 60, 60] = Inr [0, 60, 60, 60] \<and>
   smooth_rate 1 [0, 0, 0, 60] = Inr [0, 0, 0, 60] \<and>
   first_exceeds [0, 60, 60, 60] 45 1 \<and> first_exceeds [0, 0, 0, 60] 45 3 \<and>
   get_decision_time smooth_rate [0, 60, 60, 60] [0, 0, 0, 60] 1 45 (1 / 10) = Inr (1 / 10, 3 / 10) \<and>
   ambiguous (1 / 10, 3 / 10)"
proof -
  have a: "smooth_rate 2 [0, 0, 60, 60] = Inr [0, 0, 30, 60]" by code_simp
  have b: "smooth_rate 2 [0, 0, 0, 0] = Inr [0, 0, 0, 0]" by code_simp
  have c: "\<not> (crosses [0, 0, 30, 60] 45 \<and> crosses [0, 0, 0, 0] 45)" by code_simp
  have d: "get_decision_time smooth_rate [0, 0, 60, 60] [0, 0, 0, 0] 2 45 (1 / 10) = Inr (3 / 10, 0)"
    by code_simp
  have e: "smooth_rate 1 [0, 60, 60, 60] = Inr [0, 60, 60, 60]" by code_simp
  have f: "smooth_rate 1 [0, 0, 0, 60] = Inr [0, 0, 0, 60]" by code_simp
  have g: "first_exceeds [0, 60, 60, 60] 45 1" by code_simp
  have h: "first_exceeds [0, 0, 0, 60] 45 3" by code_simp
  have i: "get_decision_time smooth_rate [0, 60, 60, 60] [0, 0, 0, 60] 1 45 (1 / 10)
      = Inr (1 / 10, 3 / 10)"
    by code_simp
  from get_decision_time_ambiguous_iff
         [of smooth_rate 2 "[0, 0, 60, 60]" "[0, 0, 30, 60]" "[0, 0, 0, 0]" "[0, 0, 0, 0]" "1 / 10" 45]
       a b c d
  have one: "\<not> ambiguous (3 / 10, 0)" by (auto simp: ambiguous_def)
  from get_decision_time_ambiguous_iff
         [of smooth_rate 1 "[0, 60, 60, 60]" "[0, 60, 60, 60]" "[0, 0, 0, 60]" "[0, 0, 0, 60]" "1 / 10" 45]
       e f
  obtain tA tB
    where r: "get_decision_time smooth_rate [0, 60, 60, 60] [0, 0, 0, 60] 1 45 (1 / 10) = Inr (tA, tB)"
      and amb: "ambiguous (tA, tB) =
        ((\<exists>k. first_exceeds [0, 60, 60, 60] 45 k \<and> 0 < k) \<and>
         (\<exists>k. first_exceeds [0, 0, 0, 60] 45 k \<and> 0 < k))"
    by auto
  from r i have "(tA, tB) = (1 / 10, 3 / 10)" by (simp only: sum.inject)
  moreover from amb g h have "ambiguous (tA, tB)" by auto
  ultimately have both: "ambiguous (1 / 10, 3 / 10)" by (simp only:)
  from a b c d e f g h i one both show ?thesis by blast
qed

text \<open>
  Two series of equal length, a window of one sample and a threshold of 45 Hz: both times
  are non-zero, and the detector returns them as an ordinary pair.
\<close>

theorem get_decision_time_ambiguous_counterexample:
  "length [0::real, 60, 60] = length [0::real, 0, 60] \<and> (0::real) \<le> 45 \<and> (0::int) < 1 \<and>
   get_decision_time smooth_rate [0, 60, 60] [0, 0, 60] 1 45 1 = Inr (1, 2) \<and>
   ambiguous (1, 2)"
  by code_simp

text \<open>
  C5: of the three malformed inputs only the window width is rejected, by the smoothing:
  with a non-positive width the detector signals the invalid-argument error and returns
  no result. It checks neither the lengths of the two series nor the sign of the
  threshold: it signals an error exactly when the width is non-positive or a series is
  empty, and with a positive width and two non-empty series it returns the pair of the two
  per-side times. For any smoothing routine, an error is signalled exactly when smoothing
  one of the monitors fails or gives an empty series.
\<close>

theorem get_decision_time_error_iff:
  "(w \<le> 0 \<longrightarrow> get_decision_time smooth_rate A B w thr dt = Inl ValueError) \<and>
   ((\<exists>e. get_decision_time smooth_rate A B w thr dt = Inl e) \<longleftrightarrow> w \<le> 0 \<or> A = [] \<or> B = []) \<and>
   (0 < w \<and> A \<noteq> [] \<and> B \<noteq> [] \<longrightarrow>
      (\<exists>tA tB. t_of smooth_rate A w thr dt = Inr tA \<and> t_of smooth_rate B w thr dt = Inr tB \<and>
         get_decision_time smooth_rate A B w thr dt = Inr (tA, tB))) \<and>
   ((\<exists>e. get_decision_time smooth A' B' w' thr dt = Inl e) \<longleftrightarrow>
      smoothing_fails smooth w' A' \<or> smoothing_fails smooth w' B')"
proof -
  have general: "(\<exists>e. get_decision_time smooth A' B' w' thr dt = Inl e) \<longleftrightarrow>
      smoothing_fails smooth w' A' \<or> smoothing_fails smooth w' B'"
    for smooth :: "'w \<Rightarrow> rate_series \<Rightarrow> error + real list" and A' B' w'
  proof -
    have fa: "(\<exists>e. t_of smooth A' w' thr dt = Inl e) \<longleftrightarrow> smoothing_fails smooth w' A'"
      by (rule t_of_fails)
    have fb: "(\<exists>e. t_of smooth B' w' thr dt = Inl e) \<longleftrightarrow> smoothing_fails smooth w' B'"
      by (rule t_of_fails)
    show ?thesis
    proof (cases "t_of smooth A' w' thr dt")
      case (Inl e)
      with fa show ?thesis by (auto simp: get_decision_time_def)
    next
      case a: (Inr tA)
      show ?thesis
      proof (cases "t_of smooth B' w' thr dt")
        case (Inl e)
        with a fa fb show ?thesis by (auto simp: get_decision_time_def)
      next
        case (Inr tB)
        with a fa fb show ?thesis by (auto simp: get_decision_time_def)
      qed
    qed
  qed
  have fails: "smoothing_fails smooth_rate w m \<longleftrightarrow> w \<le> 0 \<or> m = []" for m
    by (simp add: smoothing_fails_def smooth_rate_def)
  have window: "get_decision_time smooth_rate A B w thr dt = Inl ValueError" if "w \<le> 0"
    using that by (simp add: get_decision_time_def t_of_def smooth_rate_nonpos)
  have iff: "(\<exists>e. get_decision_time smooth_rate A B w thr dt = Inl e) \<longleftrightarrow>
      w \<le> 0 \<or> A = [] \<or> B = []"
    using general [of smooth_rate A B w] by (auto simp: fails)
  have pair: "\<exists>tA tB. t_of smooth_rate A w thr dt = Inr tA \<and> t_of smooth_rate B w thr dt = Inr tB \<and>
      get_decision_time smooth_rate A B w thr dt = Inr (tA, tB)"
    if "0 < w \<and> A \<noteq> [] \<and> B \<noteq> []"
  proof -
    from that have sa: "smooth_rate w A = Inr (smoothed (nat w) A)"
      and sb: "smooth_rate w B = Inr (smoothed (nat w) B)"
      by (simp_all add: smooth_rate_pos)
    from t_of_total [of smooth_rate w A "smoothed (nat w) A" thr dt] sa that obtain i
      where i: "t_of smooth_rate A w thr dt = Inr (real i * dt)" by auto
    from t_of_total [of smooth_rate w B "smoothed (nat w) B" thr dt] sb that obtain j
      where j: "t_of smooth_rate B w thr dt = Inr (real j * dt)" by auto
    from get_decision_time_sides [OF i j] i j show ?thesis by blast
  qed
  from window iff pair general [of smooth A' B' w'] show ?thesis by blast
qed

theorem get_decision_time_error_iff_witness:
  "(0::int) \<le> 0 \<and> get_decision_time smooth_rate [0, 60] [0, 0, 0] 0 45 1 = Inl ValueError \<and>
   (- 3::int) \<le> 0 \<and> get_decision_time smooth_rate [0, 60] [0, 60] (- 3) 45 1 = Inl ValueError \<and>
   (0::int) < 1 \<and> [0::real, 60] \<noteq> [] \<and> [0::real, 0, 0] \<noteq> [] \<and>
   get_decision_time smooth_rate [0, 60] [0, 0, 0] 1 (- 1) 1 = Inr (0, 0)"
proof -
  have a: "t_of smooth_rate [0, 60] 1 (- 1) 1 = Inr 0" by code_simp
  have b: "t_of smooth_rate [0, 0, 0] 1 (- 1) 1 = Inr 0" by code_simp
  from get_decision_time_error_iff
         [of 0 "[0, 60]" "[0, 0, 0]" 45 1 smooth_rate "[0, 60]" "[0, 0, 0]" 0]
  have zero: "get_decision_time smooth_rate [0, 60] [0, 0, 0] 0 45 1 = Inl ValueError" by simp
  from get_decision_time_error_iff
         [of "- 3" "[0, 60]" "[0, 60]" 45 1 smooth_rate "[0, 60]" "[0, 60]" "- 3"]
  have neg: "get_decision_time smooth_rate [0, 60] [0, 60] (- 3) 45 1 = Inl ValueError" by simp
  from get_decision_time_error_iff
         [of 1 "[0, 60]" "[0, 0, 0]" "- 1" 1 smooth_rate "[0, 60]" "[0, 0, 0]" 1]
       a b
  have pair: "get_decision_time smooth_rate [0, 60] [0, 0, 0] 1 (- 1) 1 = Inr (0, 0)" by auto
  from zero neg pair show ?thesis by simp
qed

text \<open>
  Series of lengths 2 and 3 give the result \<open>(1, 0)\<close>, and a threshold of \<open>-1\<close> Hz
  gives \<open>(0, 0)\<close>: neither is reported as an invalid argument.
\<close>

theorem get_decision_time_validation_counterexample:
  "length [0::real, 60] \<noteq> length [0::real, 0, 0] \<and>
   get_decision_time smooth_rate [0, 60] [0, 0, 0] 1 45 1 = Inr (1, 0) \<and>
   (- 1::real) < 0 \<and>
   get_decision_time smooth_rate [0, 0] [0, 0] 1 (- 1) 1 = Inr (0, 0)"
  by code_simp

text \<open>
  C6: when both smoothed series cross the threshold, the detector raises no error and
  picks no winner: it returns the pair \<open>(kA * dt, kB * dt)\<close> of the two first-crossing
  times as computed per side. With a non-zero clock step a component is non-zero exactly
  when that side's first crossing is after sample 0.
\<close>

theorem get_decision_time_both_cross:
  assumes "smooth w A = Inr sA" "smooth w B = Inr sB" "crosses sA thr" "crosses sB thr"
  shows "\<exists>kA kB. first_exceeds sA thr kA \<and> first_exceeds sB thr kB \<and>
           get_decision_time smooth A B w thr dt = Inr (real kA * dt, real kB * dt) \<and>
           (dt \<noteq> 0 \<longrightarrow> (real kA * dt \<noteq> 0) = (0 < kA) \<and> (real kB * dt \<noteq> 0) = (0 < kB))"
proof -
  from crosses_first_exceeds [OF assms(3)] obtain kA where kA: "first_exceeds sA thr kA" by blast
  from crosses_first_exceeds [OF assms(4)] obtain kB where kB: "first_exceeds sB thr kB" by blast
  have "t_of smooth A w thr dt = Inr (real kA * dt)"
    using assms(1) kA by (rule t_of_first_exceeds)
  moreover have "t_of smooth B w thr dt = Inr (real kB * dt)"
    using assms(2) kB by (rule t_of_first_exceeds)
  ultimately have "get_decision_time smooth A B w thr dt = Inr (real kA * dt, real kB * dt)"
    by (rule get_decision_time_sides)
  with kA kB show ?thesis by auto
qed

theorem get_decision_time_both_cross_witness:
  "smooth_rate 1 [0, 60, 60] = Inr [0, 60, 60] \<and> smooth_rate 1 [0, 0, 60] = Inr [0, 0, 60] \<and>
   crosses [0, 60, 60] 45 \<and> crosses [0, 0, 60] 45 \<and>
   get_decision_time smooth_rate [0, 60, 60] [0, 0, 60] 1 45 (1 / 10) = Inr (1 / 10, 2 / 10)"
proof -
  have a: "smooth_rate 1 [0, 60, 60] = Inr [0, 60, 60]" by code_simp
  have b: "smooth_rate 1 [0, 0, 60] = Inr [0, 0, 60]" by code_simp
  have c: "crosses [0, 60, 60] 45" by code_simp
  have d: "crosses [0, 0, 60] 45" by code_simp
  have e: "get_decision_time smooth_rate [0, 60, 60] [0, 0, 60] 1 45 (1 / 10) = Inr (1 / 10, 2 / 10)"
    by code_simp
  from get_decision_time_both_cross
         [of smooth_rate 1 "[0, 60, 60]" "[0, 60, 60]" "[0, 0, 60]" "[0, 0, 60]" 45 "1 / 10"]
       a b c d e
  show ?thesis by simp
qed

text \<open>
  Both series cross 45 Hz, the left one already at sample 0: the left time is zero.
\<close>

theorem get_decision_time_both_cross_counterexample:
  "smooth_rate 1 [60, 60] = Inr [60, 60] \<and> smooth_rate 1 [0, 60] = Inr [0, 60] \<and>
   crosses [60, 60] 45 \<and> crosses [0, 60] 45 \<and>
   get_decision_time smooth_rate [60, 60] [0, 60] 1 45 1 = Inr (0, 1)"
  by code_simp

text \<open>
  C10: a side whose smoothed series exceeds the threshold already at sample index 0 gets
  the time 0, the same as a side with a non-empty smoothed series that never exceeds the
  threshold; exchanging one for the other, on the left or on the right, leaves the result
  of the detector unchanged.
\<close>

theorem first_sample_crossing_reads_as_no_decision:
  assumes "smooth w A = Inr sA" "first_exceeds sA thr 0"
    and "smooth w A' = Inr sA'" "sA' \<noteq> []" "\<not> crosses sA' thr"
  shows "t_of smooth A w thr dt = Inr 0 \<and> t_of smooth A' w thr dt = Inr 0 \<and>
         get_decision_time smooth A B w thr dt = get_decision_time smooth A' B w thr dt \<and>
         get_decision_time smooth B A w thr dt = get_decision_time smooth B A' w thr dt"
proof -
  from t_of_first_exceeds [of smooth w A sA thr 0 dt] assms
  have a: "t_of smooth A w thr dt = Inr 0" by simp
  from t_of_no_cross [of smooth w A' sA' thr dt] assms
  have a': "t_of smooth A' w thr dt = Inr 0" by simp
  from a a' show ?thesis by (simp add: get_decision_time_def split: sum.splits)
qed

theorem first_sample_crossing_reads_as_no_decision_witness:
  "smooth_rate 1 [60, 60] = Inr [60, 60] \<and> first_exceeds [60, 60] 45 0 \<and>
   smooth_rate 1 [0, 0] = Inr [0, 0] \<and> \<not> crosses [0, 0] 45 \<and>
   get_decision_time smooth_rate [60, 60] [0, 0] 1 45 1 = Inr (0, 0) \<and>
   get_decision_time smooth_rate [0, 0] [0, 0] 1 45 1 = Inr (0, 0)"
proof -
  have a: "smooth_rate 1 [60, 60] = Inr [60, 60]" by code_simp
  have b: "first_exceeds [60, 60] 45 0" by code_simp
  have c: "smooth_rate 1 [0, 0] = Inr [0, 0]" by code_simp
  have d: "\<not> crosses [0, 0] 45" by code_simp
  have e: "get_decision_time smooth_rate [0, 0] [0, 0] 1 45 1 = Inr (0, 0)" by code_simp
  from first_sample_crossing_reads_as_no_decision
         [of smooth_rate 1 "[60, 60]" "[60, 60]" 45 "[0, 0]" "[0, 0]" 1 "[0, 0]"]
       a b c d e
  show ?thesis by simp
qed

text \<open>
  C2: with the left series at 0 Hz for samples 0 to 49 and at 60 Hz from sample 50 on (for
  any positive number of further samples), the right series at 0 Hz throughout, a clock
  step of 1 ms, a threshold of 45 Hz and a window of one sample, the detector returns
  \<open>(50, 0)\<close> in ms.
\<close>

theorem get_decision_time_step_scenario:
  assumes "0 < m"
  shows "get_decision_time smooth_rate (replicate 50 0 @ replicate m 60) (replicate (50 + m) 0)
           1 45 1 = Inr (50, 0)"
proof -
  let ?A = "replicate 50 (0::real) @ replicate m 60" and ?B = "replicate (50 + m) (0::real)"
  from first_exceeds_step [OF assms, of 50]
  have "t_of smooth_rate ?A 1 45 1 = Inr (real 50 * 1)"
    by (intro t_of_first_exceeds [of smooth_rate 1 ?A ?A]) (simp_all add: smooth_rate_one)
  moreover have "t_of smooth_rate ?B 1 45 1 = Inr 0"
    by (intro t_of_no_cross [of smooth_rate 1 ?B ?B]) (simp_all add: smooth_rate_one crosses_def)
  ultimately show ?thesis by (simp add: get_decision_time_def)
qed

theorem get_decision_time_step_scenario_witness:
  "(0::nat) < 10 \<and>
   get_decision_time smooth_rate (replicate 50 0 @ replicate 10 60) (replicate (50 + 10) 0)
     1 45 1 = Inr (50, 0)"
  using get_decision_time_step_scenario [of 10] by simp

text \<open>
  C7: flat-window smoothing with a window of one sample returns the raw series, so the
  time of a side with window 1 comes from thresholding the raw series, and the detector
  with window 1 returns what it returns when no smoothing is applied.
\<close>

theorem smooth_rate_window_one_identity:
  "smooth_rate 1 xs = Inr xs \<and>
   t_of smooth_rate A 1 thr dt =
     (case idx_of A thr of Inl e \<Rightarrow> Inl e | Inr idx \<Rightarrow> Inr (real idx * dt)) \<and>
   get_decision_time smooth_rate A B 1 thr dt = get_decision_time (\<lambda>w ys. Inr ys) A B w' thr dt"
proof -
  have side: "t_of smooth_rate m 1 thr dt =
      (case idx_of m thr of Inl e \<Rightarrow> Inl e | Inr idx \<Rightarrow> Inr (real idx * dt))" for m
    by (simp add: t_of_def smooth_rate_one)
  have raw: "t_of (\<lambda>w ys. Inr ys) m w' thr dt =
      (case idx_of m thr of Inl e \<Rightarrow> Inl e | Inr idx \<Rightarrow> Inr (real idx * dt))" for m
    by (simp add: t_of_def)
  have "get_decision_time smooth_rate A B 1 thr dt =
      get_decision_time (\<lambda>w ys. Inr ys) A B w' thr dt"
    unfolding get_decision_time_def side raw ..
  with side [of A] smooth_rate_one [of xs] show ?thesis by simp
qed

theorem smooth_rate_window_one_identity_witness:
  "smooth_rate 1 [0, 30, 60] = Inr [0, 30, 60] \<and>
   get_decision_time smooth_rate [0, 30, 60] [0, 0, 0] 1 45 1 = Inr (2, 0) \<and>
   get_decision_time (\<lambda>w ys. Inr ys) [0, 30, 60] [0, 0, 0] () 45 1 = Inr (2, 0)"
proof -
  have "get_decision_time smooth_rate [0, 30, 60] [0, 0, 0] 1 45 1 = Inr (2, 0)" by code_simp
  with smooth_rate_window_one_identity [of "[0, 30, 60]" "[0, 30, 60]" 45 1 "[0, 0, 0]" "()"]
  show ?thesis by simp
qed

text \<open>
  C8: for a non-decreasing series of non-negative rates, window widths \<open>1 \<le> w1 \<le> w2\<close>
  and a non-negative clock step, whenever the detector returns a time for both widths,
  the time found with \<open>w2\<close> is not earlier than the time found with \<open>w1\<close>, or the
  crossing present at \<open>w1\<close> is absent at \<open>w2\<close>; a crossing at \<open>w2\<close> implies one
  at \<open>w1\<close>. On a non-empty series a time is returned for both widths.
\<close>

theorem wider_window_never_earlier:
  assumes "sorted xs" "\<forall>x\<in>set xs. 0 \<le> x" "0 < w1" "w1 \<le> w2" "0 \<le> dt"
  shows "(xs \<noteq> [] \<longrightarrow>
           (\<exists>t1 t2. t_of smooth_rate xs (int w1) thr dt = Inr t1 \<and> t_of smooth_rate xs (int w2) thr dt = Inr t2)) \<and>
         (\<forall>t1 t2. t_of smooth_rate xs (int w1) thr dt = Inr t1 \<and> t_of smooth_rate xs (int w2) thr dt = Inr t2 \<longrightarrow>
            (crosses (smoothed w2 xs) thr \<longrightarrow> crosses (smoothed w1 xs) thr \<and> t1 \<le> t2) \<and>
            (t1 \<le> t2 \<or> crosses (smoothed w1 xs) thr \<and> \<not> crosses (smoothed w2 xs) thr))"
proof -
  from assms have s1: "smooth_rate (int w1) xs = Inr (smoothed w1 xs)"
    and s2: "smooth_rate (int w2) xs = Inr (smoothed w2 xs)"
    by (simp_all add: smooth_rate_int)
  have returns: "\<exists>t1 t2. t_of smooth_rate xs (int w1) thr dt = Inr t1 \<and> t_of smooth_rate xs (int w2) thr dt = Inr t2"
    if "xs \<noteq> []"
    using t_of_total [of smooth_rate "int w1" xs "smoothed w1 xs" thr dt] s1
      t_of_total [of smooth_rate "int w2" xs "smoothed w2 xs" thr dt] s2 that
    by auto
  have later: "(crosses (smoothed w2 xs) thr \<longrightarrow> crosses (smoothed w1 xs) thr \<and> t1 \<le> t2) \<and>
      (t1 \<le> t2 \<or> crosses (smoothed w1 xs) thr \<and> \<not> crosses (smoothed w2 xs) thr)"
    if t: "t_of smooth_rate xs (int w1) thr dt = Inr t1 \<and> t_of smooth_rate xs (int w2) thr dt = Inr t2"
    for t1 t2
  proof -
    have ne: "xs \<noteq> []"
    proof
      assume "xs = []"
      with s1 have "t_of smooth_rate xs (int w1) thr dt = Inl ValueError"
        by (simp add: t_of_smoothed smoothed_def idx_of_Nil)
      with t show False by simp
    qed
    have wide: "crosses (smoothed w1 xs) thr \<and> t1 \<le> t2" if c2: "crosses (smoothed w2 xs) thr"
    proof -
      from crosses_first_exceeds [OF c2] obtain k2
        where k2: "first_exceeds (smoothed w2 xs) thr k2" by blast
      from first_exceeds_wider [OF assms(1-4) k2] obtain k1
        where k1: "k1 \<le> k2" "first_exceeds (smoothed w1 xs) thr k1" by blast
      from t_of_first_exceeds [of smooth_rate "int w1" xs "smoothed w1 xs" thr k1 dt] s1 k1(2) t
      have t1: "t1 = real k1 * dt" by simp
      from t_of_first_exceeds [of smooth_rate "int w2" xs "smoothed w2 xs" thr k2 dt] s2 k2 t
      have t2: "t2 = real k2 * dt" by simp
      from k1(1) assms(5) have "real k1 * dt \<le> real k2 * dt"
        by (intro mult_right_mono) simp_all
      with t1 t2 first_exceeds_crosses [OF k1(2)] show ?thesis by simp
    qed
    have "t1 \<le> t2" if "\<not> crosses (smoothed w2 xs) thr" "\<not> crosses (smoothed w1 xs) thr"
    proof -
      from t_of_no_cross [of smooth_rate "int w1" xs "smoothed w1 xs" thr dt] s1 that ne t
      have "t1 = 0" by simp
      moreover from t_of_no_cross [of smooth_rate "int w2" xs "smoothed w2 xs" thr dt] s2 that ne t
      have "t2 = 0" by simp
      ultimately show ?thesis by simp
    qed
    with wide show ?thesis by blast
  qed
  from returns later show ?thesis by blast
qed

theorem wider_window_never_earlier_witness:
  "sorted [0::real, 30, 60, 60] \<and> (0::nat) < 1 \<and> (1::nat) \<le> 2 \<and> (0::real) \<le> 1 \<and>
   t_of smooth_rate [0, 30, 60, 60] 1 45 1 = Inr 2 \<and>
   t_of smooth_rate [0, 30, 60, 60] 2 45 1 = Inr 3 \<and>
   crosses (smoothed 2 [0, 30, 60, 60]) 45 \<and> crosses (smoothed 1 [0, 30, 60, 60]) 45 \<and>
   (2::real) \<le> 3"
proof -
  have a: "sorted [0::real, 30, 60, 60]" by simp
  have b: "\<forall>x\<in>set [0::real, 30, 60, 60]. 0 \<le> x" by simp
  have c: "t_of smooth_rate [0, 30, 60, 60] 1 45 1 = Inr 2" by code_simp
  have d: "t_of smooth_rate [0, 30, 60, 60] 2 45 1 = Inr 3" by code_simp
  have e: "crosses (smoothed 2 [0, 30, 60, 60]) 45" by code_simp
  from wider_window_never_earlier [OF a b, of 1 2 1 45] c d e
  have "crosses (smoothed 1 [0, 30, 60, 60]) 45 \<and> (2::real) \<le> 3" by simp
  with a c d e show ?thesis by simp
qed

end
